theory Spec2Isabelle
  imports Complex_Main
begin

section \<open>Nearest-neighbour search: \<open>sidesi\<close> and \<open>sides\<close>\<close>

text \<open>
  Timestamps are Python floats in the source. The search only subtracts and compares them,
  so the model is polymorphic in a linearly ordered group (instantiated with \<open>int\<close> and
  \<open>rat\<close> in the concrete evaluations); rounding of floating point subtraction is not modelled.
\<close>

text \<open>
  The right-hand \<open>while True\<close> loop of \<open>sidesi\<close>. The source leaves the loop at
  \<open>ri == len(ls)\<close>; \<open>ri\<close> starts at an index of the list and grows by one, so it never
  skips that value, and the model's test \<open>length ls \<le> ri\<close> is the same test on every
  reachable \<open>ri\<close>. The result is the value of \<open>b\<close> after the loop.
\<close>

function scan_right ::
  "'a::linordered_ab_group_add \<Rightarrow> 'a list \<Rightarrow> 'a \<Rightarrow> 'a option \<Rightarrow> nat \<Rightarrow> nat option" where
  "scan_right t ls min_diff max_diff ri =
     (if length ls \<le> ri then None
      else let d = ls ! ri - t in
        if d \<noteq> 0 \<and> min_diff \<le> d then
          (if (case max_diff of None \<Rightarrow> False | Some m \<Rightarrow> d > m)
           then scan_right t ls min_diff max_diff (ri + 1)
           else Some ri)
        else scan_right t ls min_diff max_diff (ri + 1))"
  by pat_completeness auto
termination
  by (relation "measure (\<lambda>(t, ls, min_diff, max_diff, ri). length ls - ri)") auto

declare scan_right.simps [simp del]

text \<open>
  The left-hand \<open>while True\<close> loop. The counter of the model is \<open>li + 1\<close>: the source's
  exit test \<open>li == -1\<close> is the equation for \<open>0\<close>, and the equation for \<open>Suc li\<close> is one
  iteration at index \<open>li\<close>. The result is the value of \<open>a\<close> after the loop.
\<close>

fun scan_left ::
  "'a::linordered_ab_group_add \<Rightarrow> 'a list \<Rightarrow> 'a \<Rightarrow> 'a option \<Rightarrow> nat \<Rightarrow> nat option" where
  "scan_left t ls min_diff max_diff 0 = None"
| "scan_left t ls min_diff max_diff (Suc li) =
     (let d = t - ls ! li in
        if d \<noteq> 0 \<and> min_diff \<le> d then
          (if (case max_diff of None \<Rightarrow> False | Some m \<Rightarrow> d > m)
           then scan_left t ls min_diff max_diff li
           else Some li)
        else scan_left t ls min_diff max_diff li)"

text \<open>
  The \<open>for i, e in enumerate(ls)\<close> loop runs until the first element with \<open>e >= target\<close>,
  where the body returns; \<open>first_ge\<close> is the index \<open>i\<close> of that element, \<open>None\<close> when the
  loop runs to its \<open>else\<close> branch.
\<close>

fun first_ge :: "'a::linorder \<Rightarrow> 'a list \<Rightarrow> nat \<Rightarrow> nat option" where
  "first_ge target [] i = None"
| "first_ge target (e # es) i = (if e \<ge> target then Some i else first_ge target es (i + 1))"

definition sidesi ::
  "'a::linordered_ab_group_add \<Rightarrow> 'a list \<Rightarrow> 'a \<Rightarrow> 'a option \<Rightarrow> nat option \<times> nat option" where
  "sidesi target sorted_elements min_diff max_diff =
     (case first_ge target sorted_elements 0 of
        Some i \<Rightarrow>
          (let b = scan_right target sorted_elements min_diff max_diff i;
               a = scan_left target sorted_elements min_diff max_diff i
           in (a, b))
      | None \<Rightarrow>
          if sorted_elements = [] then (None, None)
          else (scan_left target sorted_elements min_diff max_diff (length sorted_elements), None))"

text \<open>
  Python's truth value of an index that is \<open>None\<close> or an \<open>int\<close>: \<open>None\<close> and \<open>0\<close> are false.
\<close>

fun truthy :: "nat option \<Rightarrow> bool" where
  "truthy None = False"
| "truthy (Some i) = (i \<noteq> 0)"

definition sides ::
  "'a::linordered_ab_group_add \<Rightarrow> 'a list \<Rightarrow> 'a \<Rightarrow> 'a option \<Rightarrow> 'a option \<times> 'a option" where
  "sides target elements min_diff max_diff =
     (case sidesi target elements min_diff max_diff of
        (ai, bi) \<Rightarrow>
          (if truthy ai then Some (elements ! the ai) else None,
           if truthy bi then Some (elements ! the bi) else None))"

section \<open>The segment editor: \<open>put_anchor\<close>, \<open>del_anchor\<close>, \<open>apply_state\<close>\<close>

text \<open>
  The editor state of the source is the pair of fields \<open>self.segments\<close> (a list of
  \<open>(start, end)\<close> tuples) and \<open>self.anchor\<close> (a position or \<open>None\<close>). The position picked
  by \<open>put_anchor\<close> is the field \<open>self.playback_pos\<close> and the target of \<open>del_anchor\<close> is the
  field \<open>self.closest_anchor\<close> (a position or \<open>None\<close>); both are parameters of the model.
  Positions are only compared by the editor, so the model is polymorphic in a linear order.
  A call can raise after it has stored into the fields, so every call of the model returns
  the fields as the call leaves them together with the exception it raises, if any.
  Saving the state file and repainting do not touch the two fields and are left out; of the
  printing, the read of the local variable \<open>move\<close> is modelled.
\<close>

type_synonym 'a segment = "'a \<times> 'a"

record 'a timeline =
  segments :: "'a segment list"
  anchor :: "'a option"

datatype py_error = IndexError | ZeroDivisionError | UnboundLocalError

text \<open>
  \<open>list.pop(i)\<close>: a negative index counts from the end, an index out of range raises
  \<open>IndexError\<close>; the result is the popped element and the remaining list.
\<close>

definition pop_at :: "'b list \<Rightarrow> nat \<Rightarrow> 'b \<times> 'b list" where
  "pop_at xs k = (xs ! k, take k xs @ drop (Suc k) xs)"

definition py_pop :: "'b list \<Rightarrow> int \<Rightarrow> py_error + ('b \<times> 'b list)" where
  "py_pop xs i =
     (if 0 \<le> i \<and> i < int (length xs) then Inr (pop_at xs (nat i))
      else if i < 0 \<and> - int (length xs) \<le> i then Inr (pop_at xs (nat (int (length xs) + i)))
      else Inl IndexError)"

text \<open>
  The loop \<open>for i, seg in enumerate(self.segments)\<close> of \<open>put_anchor\<close>: it leaves in
  \<open>aai\<close> (\<open>bbi\<close>) the index of the last segment with \<open>a <= aa <= b\<close> (\<open>a <= bb <= b\<close>),
  or the initial \<open>-1\<close>.
\<close>

fun classify :: "'a::linorder \<Rightarrow> 'a \<Rightarrow> 'a segment list \<Rightarrow> int \<Rightarrow> int \<times> int \<Rightarrow> int \<times> int" where
  "classify aa bb [] i (aai, bbi) = (aai, bbi)"
| "classify aa bb ((a, b) # segs) i (aai, bbi) =
     classify aa bb segs (i + 1)
       (if a \<le> aa \<and> aa \<le> b then i else aai, if a \<le> bb \<and> bb \<le> b then i else bbi)"

definition remove_between :: "'a::linorder \<Rightarrow> 'a \<Rightarrow> 'a segment list \<Rightarrow> 'a segment list" where
  "remove_between aa bb segs = filter (\<lambda>(a, b). \<not> (a \<ge> aa \<and> b \<le> bb)) segs"

text \<open>
  The \<open>if\<close>/\<open>elif\<close> chain of \<open>put_anchor\<close> on the segment list, in the order of the
  source. \<open>Moved move segs\<close> is a chain that ran to its end: \<open>segs\<close> is the list it leaves
  and \<open>move\<close> the value it assigned to the local variable \<open>move\<close>, \<open>None\<close> when no branch
  ran and the variable was never assigned. \<open>Raised e segs\<close> is a chain left by the exception
  \<open>e\<close> of a \<open>pop\<close>, with the list as it is at that moment (a failing \<open>pop\<close> does not change
  the list, an earlier successful one has).
\<close>

datatype 'a moved = Raised py_error "'a segment list" | Moved "int option" "'a segment list"

definition put_segments ::
  "'a::linorder \<Rightarrow> 'a \<Rightarrow> int \<Rightarrow> int \<Rightarrow> bool \<Rightarrow> 'a segment list \<Rightarrow> 'a moved" where
  "put_segments aa bb aai bbi split_if_inside segs =
     (if aai = -1 \<and> bbi = -1 then
        Moved (Some 1) (remove_between aa bb segs @ [(aa, bb)])
      else if aai > -1 \<and> aai = bbi then
        (case py_pop segs aai of
           Inl e \<Rightarrow> Raised e segs
         | Inr ((a, b), segs1) \<Rightarrow>
             Moved (Some 2)
               (if a = aa then segs1 @ [(bb, b)]
                else if b = bb then segs1 @ [(a, aa)]
                else segs1 @ [(a, aa), (bb, b)]))
      else if (aai \<noteq> -1 \<and> bbi = -1) \<or> (aai = -1 \<and> bbi \<noteq> -1) then
        (if aai > -1 then
           (case py_pop segs aai of
              Inl e \<Rightarrow> Raised e segs
            | Inr ((aa1, _), segs1) \<Rightarrow>
                Moved (Some 3) (remove_between aa1 bb segs1 @ [(aa1, bb)]))
         else
           (case py_pop segs bbi of
              Inl e \<Rightarrow> Raised e segs
            | Inr ((_, bb1), segs1) \<Rightarrow>
                Moved (Some 3) (remove_between aa bb1 segs1 @ [(aa, bb1)])))
      else if aai \<noteq> bbi \<and> split_if_inside then
        (case py_pop segs aai of
           Inl e \<Rightarrow> Raised e segs
         | Inr ((a, _), segs1) \<Rightarrow>
             (case py_pop segs1 (bbi - 1) of
                Inl e \<Rightarrow> Raised e segs1
              | Inr ((_, b), segs2) \<Rightarrow>
                  Moved (Some 4) (remove_between aa bb segs2 @ [(a, b)])))
      else Moved None segs)"

text \<open>
  \<open>put_anchor\<close>: the result is the pair of the fields after the call and the exception
  raised by the call, if any. With no pending anchor the position becomes the anchor and
  \<open>move\<close> is 0. Otherwise the chain runs; an exception of a \<open>pop\<close> leaves the call before
  the anchor is cleared and before the sort. After the chain the anchor is cleared, and on
  both branches the list is sorted: Python's \<open>sorted(..., key=lambda t: t[0])\<close> is a
  stable sort on the start, as \<open>sort_key fst\<close> is. Then
  \<open>self.print('> put, move ...' % (move, len(self.segments)))\<close> reads \<open>move\<close>: when no
  branch of the chain assigned it, the read raises \<open>UnboundLocalError\<close>, after the anchor
  was cleared and the sorted list stored.
\<close>

definition put_anchor ::
  "'a::linorder \<Rightarrow> bool \<Rightarrow> 'a timeline \<Rightarrow> 'a timeline \<times> py_error option" where
  "put_anchor playback_pos split_if_inside tln =
     (case anchor tln of
        None \<Rightarrow>
          (\<lparr>segments = sort_key fst (segments tln), anchor = Some playback_pos\<rparr>, None)
      | Some anc \<Rightarrow>
          (let aa = (if anc > playback_pos then playback_pos else anc);
               bb = (if anc > playback_pos then anc else playback_pos)
           in case classify aa bb (segments tln) 0 (-1, -1) of
                (aai, bbi) \<Rightarrow>
                  (case put_segments aa bb aai bbi split_if_inside (segments tln) of
                     Raised e segs \<Rightarrow> (\<lparr>segments = segs, anchor = Some anc\<rparr>, Some e)
                   | Moved move segs \<Rightarrow>
                       (\<lparr>segments = sort_key fst segs, anchor = None\<rparr>,
                        case move of None \<Rightarrow> Some UnboundLocalError | Some m \<Rightarrow> None))))"

text \<open>
  The loop \<open>for a, b in self.segments\<close> of \<open>del_anchor\<close> removes from the list it iterates
  over. Python's list iterator keeps an index into the list and stops when the index
  reaches the current length, so after a removal the element that moved into the freed
  place is skipped; \<open>list.remove\<close> deletes the first element equal to the tuple (which is
  in the list, so it does not raise). \<open>idx\<close> is the iterator's index.
\<close>

function del_loop ::
  "'a option \<Rightarrow> 'a segment list \<Rightarrow> nat \<Rightarrow> 'a option \<Rightarrow> 'a segment list \<times> 'a option" where
  "del_loop closest_anchor segs idx anc =
     (if idx < length segs then
        (case segs ! idx of (a, b) \<Rightarrow>
           if Some a = closest_anchor then
             del_loop closest_anchor (remove1 (a, b) segs) (idx + 1) (Some b)
           else if Some b = closest_anchor then
             del_loop closest_anchor (remove1 (a, b) segs) (idx + 1) (Some a)
           else del_loop closest_anchor segs (idx + 1) anc)
      else (segs, anc))"
  by pat_completeness auto
termination
proof (relation "measure (\<lambda>(c, segs, idx, anc). length segs - idx)")
  show "wf (measure (\<lambda>(c, segs, idx, anc). length segs - idx))" by simp
next
  fix closest_anchor :: "'a option" and segs :: "'a segment list" and idx :: nat
    and anc :: "'a option" and x a b
  assume "idx < length segs" "(a, b) = segs ! idx"
  then have "(a, b) \<in> set segs" by (metis nth_mem)
  then have "length (remove1 (a, b) segs) = length segs - 1" by (simp add: length_remove1)
  with \<open>idx < length segs\<close>
  show "((closest_anchor, remove1 (a, b) segs, idx + 1, Some b), closest_anchor, segs, idx, anc)
          \<in> measure (\<lambda>(c, segs, idx, anc). length segs - idx)"
       "((closest_anchor, remove1 (a, b) segs, idx + 1, Some a), closest_anchor, segs, idx, anc)
          \<in> measure (\<lambda>(c, segs, idx, anc). length segs - idx)"
    by simp_all
next
  fix closest_anchor :: "'a option" and segs :: "'a segment list" and idx :: nat
    and anc :: "'a option"
  assume "idx < length segs"
  then show "((closest_anchor, segs, idx + 1, anc), closest_anchor, segs, idx, anc)
          \<in> measure (\<lambda>(c, segs, idx, anc). length segs - idx)"
    by simp
qed

declare del_loop.simps [simp del]

definition del_anchor :: "'a option \<Rightarrow> 'a timeline \<Rightarrow> 'a timeline" where
  "del_anchor closest_anchor tln =
     (if closest_anchor = anchor tln then tln\<lparr>anchor := None\<rparr>
      else case del_loop closest_anchor (segments tln) 0 (anchor tln) of
             (segs, anc) \<Rightarrow> \<lparr>segments = segs, anchor = anc\<rparr>)"

text \<open>
  A sequence of editor calls: \<open>Put pos flag\<close> is \<open>put_anchor(split_if_inside=flag)\<close> at
  playback position \<open>pos\<close>, \<open>Del target\<close> is \<open>del_anchor\<close> with \<open>closest_anchor = target\<close>.
  \<open>apply_edit\<close> gives the fields after the call and the exception it raised, if any.
  \<open>run_edits\<close> gives the fields after the whole sequence: a call that raises has already
  stored into the fields, its caller catches the exception (as \<open>on_player_loaded\<close> does
  around \<open>apply_state\<close>), and the next call works on the fields as they are.
\<close>

datatype 'a edit = Put 'a bool | Del "'a option"

fun apply_edit :: "'a::linorder edit \<Rightarrow> 'a timeline \<Rightarrow> 'a timeline \<times> py_error option" where
  "apply_edit (Put pos flag) tln = put_anchor pos flag tln"
| "apply_edit (Del target) tln = (del_anchor target tln, None)"

fun run_edits :: "'a::linorder edit list \<Rightarrow> 'a timeline \<Rightarrow> 'a timeline" where
  "run_edits [] tln = tln"
| "run_edits (e # es) tln = run_edits es (fst (apply_edit e tln))"

definition empty_timeline :: "'a timeline" where
  "empty_timeline = \<lparr>segments = [], anchor = None\<rparr>"

text \<open>
  The part of \<open>apply_state\<close> that rebuilds the editor state from a saved state: for every
  saved segment \<open>put_anchor()\<close> at its start and \<open>put_anchor(split_if_inside=False)\<close> at
  its end, then the saved anchor is stored into the field. An exception of a \<open>put_anchor\<close>
  call leaves \<open>apply_state\<close> at once, with the fields as that call left them.
\<close>

fun replay_segments ::
  "'a::linorder segment list \<Rightarrow> 'a timeline \<Rightarrow> 'a timeline \<times> py_error option" where
  "replay_segments [] tln = (tln, None)"
| "replay_segments ((a, b) # rest) tln =
     (case put_anchor a True tln of
        (tln1, Some e) \<Rightarrow> (tln1, Some e)
      | (tln1, None) \<Rightarrow>
          (case put_anchor b False tln1 of
             (tln2, Some e) \<Rightarrow> (tln2, Some e)
           | (tln2, None) \<Rightarrow> replay_segments rest tln2))"

definition apply_state ::
  "'a::linorder segment list \<Rightarrow> 'a option \<Rightarrow> 'a timeline \<Rightarrow> 'a timeline \<times> py_error option" where
  "apply_state saved_segments saved_anchor tln =
     (case replay_segments saved_segments tln of
        (tln1, Some e) \<Rightarrow> (tln1, Some e)
      | (tln1, None) \<Rightarrow> (tln1\<lparr>anchor := saved_anchor\<rparr>, None))"

section \<open>Well-formed segment lists\<close>

text \<open>
  \<open>inside\<close> is the test \<open>a <= x <= b\<close> of \<open>put_anchor\<close>. A segment lies \<open>left_of\<close>
  another when it ends no later than the other starts and starts strictly earlier. A
  segment list is \<open>well_formed\<close> when every segment lies left of every later one and no
  segment has its end before its start; \<open>last_inside\<close> is one component of the
  classification loop; \<open>boundaries\<close> is the list
  \<open>[t for seg in self.segments for t in seg]\<close> of all segment boundaries.
\<close>

definition inside :: "'a::linorder \<Rightarrow> 'a segment \<Rightarrow> bool" where
  "inside x s = (fst s \<le> x \<and> x \<le> snd s)"

definition left_of :: "'a::linorder segment \<Rightarrow> 'a segment \<Rightarrow> bool" where
  "left_of s t = (snd s \<le> fst t \<and> fst s < fst t)"

definition well_formed :: "'a::linorder segment list \<Rightarrow> bool" where
  "well_formed segs = (sorted_wrt left_of segs \<and> list_all (\<lambda>s. fst s \<le> snd s) segs)"

fun last_inside :: "'a::linorder \<Rightarrow> 'a segment list \<Rightarrow> int \<Rightarrow> int \<Rightarrow> int" where
  "last_inside x [] i acc = acc"
| "last_inside x ((a, b) # segs) i acc =
     last_inside x segs (i + 1) (if a \<le> x \<and> x \<le> b then i else acc)"

definition boundaries :: "'a segment list \<Rightarrow> 'a list" where
  "boundaries segs = concat (map (\<lambda>(a, b). [a, b]) segs)"


text \<open>
  \<open>get_state\<close> saves the two fields as they are (its other entries are settings of the
  user interface); \<open>restore\<close> is \<open>apply_state\<close> on a saved state in a freshly started
  editor, whose segment list is empty and whose anchor is \<open>None\<close>. A segment list is
  \<open>separated\<close> when every segment ends strictly before every later one starts and every
  segment has its start strictly below its end.
\<close>

definition get_state :: "'a timeline \<Rightarrow> 'a segment list \<times> 'a option" where
  "get_state tln = (segments tln, anchor tln)"

definition restore :: "'a::linorder timeline \<Rightarrow> 'a timeline \<times> py_error option" where
  "restore tln = (case get_state tln of (saved_segments, saved_anchor) \<Rightarrow>
     apply_state saved_segments saved_anchor empty_timeline)"

definition separated :: "'a::linorder segment list \<Rightarrow> bool" where
  "separated segs = (sorted_wrt (\<lambda>s t. snd s < fst t) segs \<and> list_all (\<lambda>(a, b). a < b) segs)"

section \<open>The timestamp index: packet mode and frame mode\<close>

text \<open>
  Timestamps of the index are modelled as rationals (the source parses them with
  \<open>float\<close>; infinities and NaN are not modelled). The output of the probe process is
  modelled as the list of its lines, each line classified the way the reading loop tests
  it, in the order of the tests: a line containing \<open>=K\<close> is \<open>Flags_K\<close>; otherwise a line
  with \<open>ts_time=\<close> at positions 1 to 8 is \<open>Pts_time\<close> when it starts with \<open>p\<close> and
  \<open>Dts_time\<close> when not, carrying the parsed value, or \<open>None\<close> when \<open>float\<close> raises
  \<open>ValueError\<close>; every other line is \<open>Other_packet_line\<close>. The flag \<open>failed\<close> of the two
  loaders is the result of \<open>self._wait(proc, ...)\<close>, true when the process exits non-zero.
\<close>

datatype packet_line = Flags_K | Pts_time "rat option" | Dts_time "rat option" | Other_packet_line

text \<open>
  \<open>xs[i]\<close>: a negative index counts from the end; \<open>None\<close> stands for \<open>IndexError\<close>.
\<close>

definition py_index :: "'b list \<Rightarrow> int \<Rightarrow> 'b option" where
  "py_index xs i =
     (if 0 \<le> i \<and> i < int (length xs) then Some (xs ! nat i)
      else if i < 0 \<and> - int (length xs) \<le> i then Some (xs ! nat (int (length xs) + i))
      else None)"

record packet_state =
  pts :: "rat list"
  dts :: "rat list"
  ipts :: "rat list"
  packetn :: int

text \<open>
  One iteration of the reading loop of \<open>_load_timestamps_from_packets\<close>. On a keyframe
  flag the value \<open>pts[packetn-1]\<close> is recorded, or \<open>dts[packetn-1]\<close> when the first read
  raises \<open>IndexError\<close>, or nothing when both do.
\<close>

definition read_packet_line :: "packet_line \<Rightarrow> packet_state \<Rightarrow> packet_state" where
  "read_packet_line line st =
     (case line of
        Flags_K \<Rightarrow>
          (case py_index (pts st) (packetn st - 1) of
             Some v \<Rightarrow> st\<lparr>ipts := ipts st @ [v]\<rparr>
           | None \<Rightarrow>
               (case py_index (dts st) (packetn st - 1) of
                  Some v \<Rightarrow> st\<lparr>ipts := ipts st @ [v]\<rparr>
                | None \<Rightarrow> st))
      | Pts_time parsed \<Rightarrow>
          (let st1 = st\<lparr>packetn := packetn st + 1\<rparr>
           in case parsed of
                Some v \<Rightarrow> if v \<ge> 0 then st1\<lparr>pts := pts st1 @ [v]\<rparr> else st1
              | None \<Rightarrow> st1)
      | Dts_time parsed \<Rightarrow>
          (case parsed of
             Some v \<Rightarrow> if v \<ge> 0 then st\<lparr>dts := dts st @ [v]\<rparr> else st
           | None \<Rightarrow> st)
      | Other_packet_line \<Rightarrow> st)"

definition read_packets :: "packet_line list \<Rightarrow> packet_state" where
  "read_packets lines =
     foldl (\<lambda>st line. read_packet_line line st) \<lparr>pts = [], dts = [], ipts = [], packetn = 0\<rparr> lines"

text \<open>
  \<open>sorted(set(xs))\<close>, and \<open>ipts[ipts.index(v)] = t\<close> inside \<open>try\<close>/\<open>except\<close>: the first
  occurrence of \<open>v\<close> is replaced, and nothing happens when there is none.
\<close>

definition sorted_set :: "rat list \<Rightarrow> rat list" where
  "sorted_set xs = sort (remdups xs)"

definition replace_first :: "rat \<Rightarrow> rat \<Rightarrow> rat list \<Rightarrow> rat list" where
  "replace_first v t xs =
     (if v \<in> set xs then xs[length (takeWhile (\<lambda>x. x \<noteq> v) xs) := t] else xs)"

text \<open>
  The cleanup loop \<open>for t in sorted(set(pts))\<close>: \<open>rm\<close> collects the elements \<open>v\<close> of the
  window \<open>q\<close> with \<open>abs(v-t) <= 0.002\<close>, and \<open>remove_all_rm\<close> is the loop \<open>for v in rm\<close>,
  which removes \<open>v\<close> from \<open>q\<close> and from \<open>pts\<close> and replaces it in \<open>ipts\<close>. The source
  creates \<open>q = collections.deque(maxlen=10)\<close> and never appends to it, so the window is
  the empty list when the loop starts and the model has no append either.
\<close>

fun remove_all_rm :: "rat \<Rightarrow> rat list \<Rightarrow> rat list \<times> rat list \<times> rat list \<Rightarrow> rat list \<times> rat list \<times> rat list" where
  "remove_all_rm t [] (q, pts_index, ipts_index) = (q, pts_index, ipts_index)"
| "remove_all_rm t (v # rm) (q, pts_index, ipts_index) =
     remove_all_rm t rm (remove1 v q, remove1 v pts_index, replace_first v t ipts_index)"

fun filter_incomplete :: "rat list \<Rightarrow> rat list \<times> rat list \<times> rat list \<Rightarrow> rat list \<times> rat list \<times> rat list" where
  "filter_incomplete [] (q, pts_index, ipts_index) = (q, pts_index, ipts_index)"
| "filter_incomplete (t # ts) (q, pts_index, ipts_index) =
     filter_incomplete ts
       (remove_all_rm t (filter (\<lambda>v. \<bar>v - t\<bar> \<le> 2 / 1000) q) (q, pts_index, ipts_index))"

definition load_timestamps_from_packets :: "packet_line list \<Rightarrow> bool \<Rightarrow> (rat list \<times> rat list) option" where
  "load_timestamps_from_packets lines failed =
     (let st = read_packets lines in
      if failed then None
      else
        let pts1 = sorted_set (pts st @ dts st);
            ipts1 = sorted_set (ipts st)
        in case filter_incomplete (sorted_set pts1) ([], pts1, ipts1) of
             (q, pts2, ipts2) \<Rightarrow> if pts2 \<noteq> [] then Some (pts2, ipts2) else None)"

text \<open>
  Frame mode. A line containing \<open>best_effort_timestamp_time=\<close> carries the parsed value,
  or \<open>None\<close> when parsing raises; the line \<open>pict_type=I\<close> is \<open>Pict_type_I\<close>, on which the
  source appends \<open>pts[-1]\<close> (an uncaught \<open>IndexError\<close> when \<open>pts\<close> is empty). The progress
  counter and the frame count of the dry run only feed the progress message and are left out.
  \<open>frame_timestamps\<close> is the sequence of the successfully parsed timestamps of the stream,
  in stream order.
\<close>

datatype frame_line = Best_effort_timestamp_time "rat option" | Pict_type_I | Other_frame_line

fun read_frames :: "frame_line list \<Rightarrow> rat list \<times> rat list \<Rightarrow> py_error + rat list \<times> rat list" where
  "read_frames [] (pts_index, ipts_index) = Inr (pts_index, ipts_index)"
| "read_frames (Best_effort_timestamp_time parsed # lines) (pts_index, ipts_index) =
     read_frames lines
       (case parsed of Some v \<Rightarrow> pts_index @ [v] | None \<Rightarrow> pts_index, ipts_index)"
| "read_frames (Pict_type_I # lines) (pts_index, ipts_index) =
     (case py_index pts_index (-1) of
        None \<Rightarrow> Inl IndexError
      | Some v \<Rightarrow> read_frames lines (pts_index, ipts_index @ [v]))"
| "read_frames (Other_frame_line # lines) (pts_index, ipts_index) =
     read_frames lines (pts_index, ipts_index)"

definition load_timestamps_from_frames ::
  "frame_line list \<Rightarrow> bool \<Rightarrow> py_error + (rat list \<times> rat list) option" where
  "load_timestamps_from_frames lines failed =
     (case read_frames lines ([], []) of
        Inl e \<Rightarrow> Inl e
      | Inr (pts_index, ipts_index) \<Rightarrow>
          if failed then Inr None
          else if pts_index \<noteq> [] then Inr (Some (pts_index, ipts_index))
          else Inr None)"

fun frame_timestamps :: "frame_line list \<Rightarrow> rat list" where
  "frame_timestamps [] = []"
| "frame_timestamps (Best_effort_timestamp_time (Some v) # lines) = v # frame_timestamps lines"
| "frame_timestamps (_ # lines) = frame_timestamps lines"

section \<open>Inversion of the segment list\<close>

text \<open>
  \<open>closest\<close>: Python's \<open>min(elements, key=...)\<close> returns the first element with the least
  key, and raises \<open>ValueError\<close> on an empty list, which the source catches and turns into
  \<open>None\<close>.
\<close>

definition closest :: "rat \<Rightarrow> rat list \<Rightarrow> rat option \<Rightarrow> rat option" where
  "closest target elements max_diff =
     (case elements of
        [] \<Rightarrow> None
      | x # xs \<Rightarrow>
          (let el = foldl (\<lambda>best e. if \<bar>target - e\<bar> < \<bar>target - best\<bar> then e else best) x xs
           in case max_diff of
                None \<Rightarrow> Some el
              | Some m \<Rightarrow> if \<bar>el - target\<bar> < m then Some el else None))"

text \<open>
  \<open>get_inversed_segments\<close>. \<open>inversed_loop\<close> is the loop \<open>for i, t in enumerate(anchors)\<close>
  with its local variables \<open>prev\<close> and \<open>segments\<close>; \<open>n\<close> is \<open>len(anchors)\<close>, and
  \<open>1/self.player.fps\<close> raises \<open>ZeroDivisionError\<close> when \<open>fps\<close> is 0. The body of the source
  function ends after the loop without a \<open>return\<close> statement, so a call that does not raise
  returns \<open>None\<close>: the list built by the loop is dropped.
\<close>

fun inversed_loop ::
  "rat list \<Rightarrow> rat \<Rightarrow> rat \<Rightarrow> nat \<Rightarrow> rat list \<Rightarrow> nat \<Rightarrow> rat option \<Rightarrow> rat segment list
     \<Rightarrow> py_error + rat segment list" where
  "inversed_loop pts_index playback_len fps n [] i prev segs = Inr segs"
| "inversed_loop pts_index playback_len fps n (t # anchors) i prev segs =
     (if i mod 2 = 0 then
        (let prev1 = (case prev of None \<Rightarrow> 0 | Some p \<Rightarrow> p);
             first_frame = (t = 0 \<or> (pts_index \<noteq> [] \<and> closest t pts_index None = Some (hd pts_index)))
         in inversed_loop pts_index playback_len fps n anchors (i + 1) (Some prev1)
              (if \<not> first_frame then segs @ [(prev1, t)] else segs))
      else if int i = int n - 1 then
        (if fps = 0 then Inl ZeroDivisionError
         else
           (let last_frame = (playback_len - t < 1 / fps \<or>
                  (pts_index \<noteq> [] \<and> closest t pts_index None = Some (last pts_index)))
            in inversed_loop pts_index playback_len fps n anchors (i + 1) (Some t)
                 (if \<not> last_frame then segs @ [(t, playback_len)] else segs)))
      else inversed_loop pts_index playback_len fps n anchors (i + 1) (Some t) segs)"

definition get_inversed_segments ::
  "rat segment list \<Rightarrow> rat list \<Rightarrow> rat \<Rightarrow> rat \<Rightarrow> py_error + (rat segment list) option" where
  "get_inversed_segments segs pts_index playback_len fps =
     (case inversed_loop pts_index playback_len fps (length (boundaries segs)) (boundaries segs) 0 None [] of
        Inl e \<Rightarrow> Inl e
      | Inr inversed \<Rightarrow> Inr None)"


text \<open>
  An auxiliary invariant of the frame-mode loop: the keyframe list is ascending and bounded
  by the last timestamp read so far.
\<close>

definition keyframe_bound :: "rat list \<Rightarrow> rat list \<Rightarrow> bool" where
  "keyframe_bound pts_index ipts_index =
     (sorted ipts_index \<and> (\<forall>x\<in>set ipts_index. pts_index \<noteq> [] \<and> x \<le> last pts_index))"


section \<open>Properties of the search\<close>

lemma scan_right_found:
  "scan_right t ls mn mx ri = Some i \<Longrightarrow>
     i < length ls \<and> ri \<le> i \<and> ls ! i - t \<noteq> 0 \<and> mn \<le> ls ! i - t"
proof (induction t ls mn mx ri rule: scan_right.induct)
  case (1 t ls mn mx ri)
  note eq = scan_right.simps[of t ls mn mx ri]
  show ?case
  proof (cases "length ls \<le> ri")
    case True
    with "1.prems" show ?thesis by (simp add: eq)
  next
    case False
    show ?thesis
    proof (cases "ls ! ri - t \<noteq> 0 \<and> mn \<le> ls ! ri - t")
      case hit: True
      show ?thesis
      proof (cases "case mx of None \<Rightarrow> False | Some m \<Rightarrow> ls ! ri - t > m")
        case True
        with False hit "1.prems" have "scan_right t ls mn mx (ri + 1) = Some i"
          by (simp add: eq Let_def)
        with "1.IH"(1)[OF False refl hit True] show ?thesis by simp
      next
        case far: False
        with False hit "1.prems" have "i = ri" by (simp add: eq Let_def)
        with False hit show ?thesis by simp
      qed
    next
      case miss: False
      with False "1.prems" have "scan_right t ls mn mx (ri + 1) = Some i"
        by (auto simp: eq Let_def)
      with "1.IH"(2)[OF False refl miss] show ?thesis by simp
    qed
  qed
qed

lemma scan_left_found:
  "scan_left t ls mn mx k = Some i \<Longrightarrow> i < k \<and> t - ls ! i \<noteq> 0 \<and> mn \<le> t - ls ! i"
proof (induction k)
  case 0
  then show ?case by simp
next
  case (Suc k)
  then show ?case
    by (auto simp: Let_def less_Suc_eq split: if_splits)
qed

lemma first_ge_bound: "first_ge t ls k = Some i \<Longrightarrow> k \<le> i \<and> i < k + length ls"
  by (induction ls arbitrary: k) (fastforce split: if_splits)+

lemma sidesi_left:
  assumes "sidesi t ls mn mx = (Some i, b)"
  shows "i < length ls \<and> t - ls ! i \<noteq> 0 \<and> mn \<le> t - ls ! i"
proof (cases "first_ge t ls 0")
  case None
  with assms have "scan_left t ls mn mx (length ls) = Some i"
    by (auto simp: sidesi_def split: if_splits)
  then show ?thesis using scan_left_found by blast
next
  case (Some k)
  with assms have "scan_left t ls mn mx k = Some i"
    by (simp add: sidesi_def Let_def)
  moreover from Some have "k < length ls" using first_ge_bound by fastforce
  ultimately show ?thesis using scan_left_found by fastforce
qed

lemma sidesi_right:
  assumes "sidesi t ls mn mx = (a, Some i)"
  shows "i < length ls \<and> ls ! i - t \<noteq> 0 \<and> mn \<le> ls ! i - t"
proof (cases "first_ge t ls 0")
  case None
  with assms show ?thesis by (auto simp: sidesi_def split: if_splits)
next
  case (Some k)
  with assms have "scan_right t ls mn mx k = Some i"
    by (simp add: sidesi_def Let_def)
  then show ?thesis using scan_right_found by blast
qed

text \<open>
  Claim C7. With \<open>min_diff = 0\<close>, \<open>sidesi\<close> never returns, on either side, the index of an
  element equal to the target: a left index holds an element strictly below the target and a
  right index one strictly above it (for every sequence, ascending or not, and every
  \<open>max_diff\<close>). The empty sequence gives \<open>(None, None)\<close>, and \<open>sidesi(5, [3,4,5,6])\<close> is
  \<open>(1, 3)\<close>, the indices of the values 4 and 6.
\<close>

theorem sidesi_strict_neighbours:
  "(sorted ls \<longrightarrow> sidesi t ls 0 mx = (a, b) \<longrightarrow>
      (\<forall>i. a = Some i \<longrightarrow> i < length ls \<and> ls ! i < t \<and> ls ! i \<noteq> t) \<and>
      (\<forall>i. b = Some i \<longrightarrow> i < length ls \<and> t < ls ! i \<and> ls ! i \<noteq> t))
   \<and> sidesi t [] 0 mx = (None, None)
   \<and> sidesi (5::int) [3, 4, 5, 6] 0 None = (Some 1, Some 3)
   \<and> [3, 4, 5, 6 :: int] ! 1 = 4 \<and> [3, 4, 5, 6 :: int] ! 3 = 6"
proof -
  have gen: "sidesi t ls 0 mx = (a, b) \<Longrightarrow>
      (\<forall>i. a = Some i \<longrightarrow> i < length ls \<and> ls ! i < t \<and> ls ! i \<noteq> t) \<and>
      (\<forall>i. b = Some i \<longrightarrow> i < length ls \<and> t < ls ! i \<and> ls ! i \<noteq> t)"
  proof (intro conjI allI impI)
    fix i assume h: "sidesi t ls 0 mx = (a, b)" "a = Some i"
    from sidesi_left[of t ls 0 mx i b] h
    have "i < length ls" "t - ls ! i \<noteq> 0" "0 \<le> t - ls ! i" by simp_all
    then show "i < length ls" "ls ! i < t" "ls ! i \<noteq> t" by simp_all
  next
    fix i assume h: "sidesi t ls 0 mx = (a, b)" "b = Some i"
    from sidesi_right[of t ls 0 mx a i] h
    have "i < length ls" "ls ! i - t \<noteq> 0" "0 \<le> ls ! i - t" by simp_all
    then show "i < length ls" "t < ls ! i" "ls ! i \<noteq> t" by simp_all
  qed
  have empty: "sidesi t [] 0 mx = (None, None)"
    by (simp add: sidesi_def)
  have ex: "sidesi (5::int) [3, 4, 5, 6] 0 None = (Some 1, Some 3)"
    by code_simp
  from gen empty ex show ?thesis by simp
qed

theorem sidesi_strict_neighbours_witness:
  "sorted [3, 4, 5, 6 :: int] \<and> sidesi (5::int) [3, 4, 5, 6] 0 None = (Some 1, Some 3)
   \<and> [3, 4, 5, 6 :: int] ! 1 < 5 \<and> 5 < [3, 4, 5, 6 :: int] ! 3"
proof -
  have s: "sorted [3, 4, 5, 6 :: int]" by simp
  from sidesi_strict_neighbours[of "[3, 4, 5, 6 :: int]" 5 None "Some 1" "Some 3"]
  have e: "sidesi (5::int) [3, 4, 5, 6] 0 None = (Some 1, Some 3)"
    and imp: "sorted [3, 4, 5, 6 :: int] \<longrightarrow>
      sidesi (5::int) [3, 4, 5, 6] 0 None = (Some 1, Some 3) \<longrightarrow>
      (\<forall>i. Some 1 = Some i \<longrightarrow> i < length [3, 4, 5, 6 :: int] \<and> [3, 4, 5, 6 :: int] ! i < 5
            \<and> [3, 4, 5, 6 :: int] ! i \<noteq> 5) \<and>
      (\<forall>i. Some 3 = Some i \<longrightarrow> i < length [3, 4, 5, 6 :: int] \<and> 5 < [3, 4, 5, 6 :: int] ! i
            \<and> [3, 4, 5, 6 :: int] ! i \<noteq> 5)"
    by blast+
  from imp s e show ?thesis by simp
qed

text \<open>
  Claim C10. \<open>sides\<close> tests the indices returned by \<open>sidesi\<close> for truth, not for \<open>None\<close>:
  whenever \<open>sidesi\<close> finds index 0 on a side, \<open>sides\<close> returns \<open>None\<close> on that side instead
  of the element at index 0. For \<open>sides(5, [3, 6])\<close>, \<open>sidesi\<close> returns \<open>(0, 1)\<close> and \<open>sides\<close>
  returns \<open>(None, 6)\<close>.
\<close>

theorem sides_drops_index_zero:
  "(sorted ls \<longrightarrow> sidesi t ls mn mx = (Some 0, b) \<longrightarrow> fst (sides t ls mn mx) = None)
   \<and> (sorted ls \<longrightarrow> sidesi t ls mn mx = (a, Some 0) \<longrightarrow> snd (sides t ls mn mx) = None)
   \<and> sidesi (5::int) [3, 6] 0 None = (Some 0, Some 1)
   \<and> sides (5::int) [3, 6] 0 None = (None, Some 6)"
proof -
  have ex: "sidesi (5::int) [3, 6] 0 None = (Some 0, Some 1)"
    by code_simp
  then have ex2: "sides (5::int) [3, 6] 0 None = (None, Some 6)"
    by (simp add: sides_def)
  show ?thesis using ex ex2 by (simp add: sides_def)
qed

theorem sides_drops_index_zero_witness:
  "sorted [3, 6 :: int] \<and> sidesi (5::int) [3, 6] 0 None = (Some 0, Some 1)
   \<and> fst (sides (5::int) [3, 6] 0 None) = None
   \<and> sorted [6, 7 :: int] \<and> sidesi (5::int) [6, 7] 0 None = (None, Some 0)
   \<and> snd (sides (5::int) [6, 7] 0 None) = None"
proof -
  have s1: "sorted [3, 6 :: int]" and s2: "sorted [6, 7 :: int]" by simp_all
  have e2: "sidesi (5::int) [6, 7] 0 None = (None, Some 0)"
    by code_simp
  from sides_drops_index_zero[of "[3, 6 :: int]" 5 0 None "Some 1" "Some 0"] s1
  have l: "sidesi (5::int) [3, 6] 0 None = (Some 0, Some 1)"
          "fst (sides (5::int) [3, 6] 0 None) = None"
    by simp_all
  from sides_drops_index_zero[of "[6, 7 :: int]" 5 0 None "Some 1" "None"] s2 e2
  have r: "snd (sides (5::int) [6, 7] 0 None) = None"
    by simp
  from s1 s2 e2 l r show ?thesis by simp
qed

section \<open>Properties of the segment editor\<close>

lemma classify_last_inside:
  "classify aa bb segs i (ai, bi) = (last_inside aa segs i ai, last_inside bb segs i bi)"
  by (induction segs arbitrary: i ai bi) auto

lemma last_inside_none:
  "\<forall>s\<in>set segs. \<not> inside x s \<Longrightarrow> last_inside x segs i acc = acc"
  by (induction segs arbitrary: i acc) (auto simp: inside_def)

lemma last_inside_some:
  "inside x s \<Longrightarrow> \<forall>t\<in>set R. \<not> inside x t \<Longrightarrow>
     last_inside x (L @ s # R) i acc = i + int (length L)"
proof (induction L arbitrary: i acc)
  case Nil
  then show ?case by (cases s) (simp add: last_inside_none inside_def)
next
  case (Cons l L)
  then show ?case by (cases l) simp
qed

lemma last_inside_cases:
  "(last_inside x segs 0 (-1) = -1 \<and> (\<forall>s\<in>set segs. \<not> inside x s)) \<or>
   (\<exists>L s R. segs = L @ s # R \<and> inside x s \<and> (\<forall>t\<in>set R. \<not> inside x t) \<and>
      last_inside x segs 0 (-1) = int (length L))"
proof (cases "\<exists>s\<in>set segs. inside x s")
  case True
  then obtain L s R where "segs = L @ s # R" "inside x s" "\<forall>t\<in>set R. \<not> inside x t"
    using split_list_last_prop[of segs "inside x"] by blast
  moreover from this have "last_inside x segs 0 (-1) = int (length L)"
    using last_inside_some[of x s R L 0 "-1"] by simp
  ultimately show ?thesis by blast
next
  case False
  then show ?thesis by (simp add: last_inside_none)
qed

lemma py_pop_split: "py_pop (L @ s # R) (int (length L)) = Inr (s, L @ R)"
  by (simp add: py_pop_def pop_at_def)

lemma left_of_irrefl: "\<not> left_of s s"
  by (simp add: left_of_def)

lemma well_formed_distinct: "well_formed segs \<Longrightarrow> distinct segs"
  unfolding well_formed_def
  by (induction segs) (auto simp: left_of_def)

lemma well_formed_sorted: "well_formed segs \<Longrightarrow> sorted (map fst segs)"
  unfolding well_formed_def
  by (induction segs) (auto simp: left_of_def)

lemma well_formed_pairs:
  "well_formed segs \<Longrightarrow> s \<in> set segs \<Longrightarrow> t \<in> set segs \<Longrightarrow> s \<noteq> t \<Longrightarrow> left_of s t \<or> left_of t s"
  unfolding well_formed_def
  by (induction segs) auto

lemma well_formed_le: "well_formed segs \<Longrightarrow> s \<in> set segs \<Longrightarrow> fst s \<le> snd s"
  by (simp add: well_formed_def list_all_iff)

lemma well_formed_from_set:
  assumes "sorted (map fst ys)" "distinct ys" "\<forall>s\<in>set ys. fst s \<le> snd s"
    and "\<forall>s\<in>set ys. \<forall>t\<in>set ys. s \<noteq> t \<longrightarrow> left_of s t \<or> left_of t s"
  shows "well_formed ys"
  using assms
proof (induction ys)
  case Nil
  then show ?case by (simp add: well_formed_def)
next
  case (Cons y ys)
  then have wf: "well_formed ys" by simp
  have "left_of y t" if "t \<in> set ys" for t
  proof -
    from that Cons.prems(2) have "y \<noteq> t" by auto
    with that Cons.prems(4) have "left_of y t \<or> left_of t y" by simp
    moreover from that Cons.prems(1) have "fst y \<le> fst t" by auto
    ultimately show ?thesis by (auto simp: left_of_def)
  qed
  with wf Cons.prems(3) show ?case by (simp add: well_formed_def)
qed

lemma well_formed_sort:
  assumes "distinct L" "\<forall>s\<in>set L. fst s \<le> snd s"
    and "\<forall>s\<in>set L. \<forall>t\<in>set L. s \<noteq> t \<longrightarrow> left_of s t \<or> left_of t s"
  shows "well_formed (sort_key fst L)"
  by (rule well_formed_from_set) (use assms in \<open>simp_all add: sorted_sort_key\<close>)

lemma well_formed_insert:
  assumes wf: "well_formed segs" and sub: "set L \<subseteq> set segs" and d: "distinct L"
    and n: "fst n \<le> snd n" and rel: "\<forall>t\<in>set L. left_of t n \<or> left_of n t"
  shows "well_formed (sort_key fst (L @ [n]))"
proof (rule well_formed_sort)
  from rel have "n \<notin> set L" using left_of_irrefl by blast
  with d show "distinct (L @ [n])" by simp
  from wf sub n show "\<forall>s\<in>set (L @ [n]). fst s \<le> snd s"
    using well_formed_le by auto
  show "\<forall>s\<in>set (L @ [n]). \<forall>t\<in>set (L @ [n]). s \<noteq> t \<longrightarrow> left_of s t \<or> left_of t s"
  proof (intro ballI impI)
    fix s t assume "s \<in> set (L @ [n])" "t \<in> set (L @ [n])" "s \<noteq> t"
    then consider "s \<in> set segs" "t \<in> set segs" | "s \<in> set L" "t = n" | "s = n" "t \<in> set L"
      using sub by auto
    then show "left_of s t \<or> left_of t s"
      using rel well_formed_pairs[OF wf _ _ \<open>s \<noteq> t\<close>] by cases blast+
  qed
qed

lemma well_formed_insert2:
  assumes wf: "well_formed segs" and sub: "set L \<subseteq> set segs" and d: "distinct L"
    and n: "fst n \<le> snd n" "fst m \<le> snd m" and nm: "left_of n m"
    and rel: "\<forall>t\<in>set L. (left_of t n \<or> left_of n t) \<and> (left_of t m \<or> left_of m t)"
  shows "well_formed (sort_key fst (L @ [n, m]))"
proof (rule well_formed_sort)
  from rel have "n \<notin> set L" "m \<notin> set L" using left_of_irrefl by blast+
  moreover from nm have "n \<noteq> m" using left_of_irrefl by blast
  ultimately show "distinct (L @ [n, m])" using d by simp
  from wf sub n show "\<forall>s\<in>set (L @ [n, m]). fst s \<le> snd s"
    using well_formed_le by auto
  show "\<forall>s\<in>set (L @ [n, m]). \<forall>t\<in>set (L @ [n, m]). s \<noteq> t \<longrightarrow> left_of s t \<or> left_of t s"
  proof (intro ballI impI)
    fix s t assume "s \<in> set (L @ [n, m])" "t \<in> set (L @ [n, m])" "s \<noteq> t"
    then consider "s \<in> set segs" "t \<in> set segs" | "s \<in> set L" "t = n" | "s = n" "t \<in> set L"
      | "s \<in> set L" "t = m" | "s = m" "t \<in> set L" | "s = n" "t = m" | "s = m" "t = n"
      using sub by auto
    then show "left_of s t \<or> left_of t s"
      using rel nm well_formed_pairs[OF wf _ _ \<open>s \<noteq> t\<close>] by cases blast+
  qed
qed

lemma well_formed_split:
  assumes "well_formed (L @ s # R)"
  shows "\<forall>l\<in>set L. left_of l s" "\<forall>r\<in>set R. left_of s r" "fst s \<le> snd s"
    "distinct (L @ R)" "well_formed (L @ R)"
  using assms well_formed_distinct[OF assms]
  by (auto simp: well_formed_def sorted_wrt_append)


lemma remove_between_distinct: "distinct xs \<Longrightarrow> distinct (remove_between a b xs)"
  by (simp add: remove_between_def)

lemma remove_between_subset: "set (remove_between a b xs) \<subseteq> set xs"
  by (auto simp: remove_between_def)

lemma put_case1:
  assumes wf: "well_formed segs" and le: "aa \<le> bb"
    and na: "\<forall>s\<in>set segs. \<not> inside aa s" and nb: "\<forall>s\<in>set segs. \<not> inside bb s"
  shows "well_formed (sort_key fst (remove_between aa bb segs @ [(aa, bb)]))"
proof (rule well_formed_insert[OF wf])
  show "set (remove_between aa bb segs) \<subseteq> set segs" by (auto simp: remove_between_def)
  show "distinct (remove_between aa bb segs)"
    using well_formed_distinct[OF wf] by (simp add: remove_between_def)
  show "fst (aa, bb) \<le> snd (aa, bb)" using le by simp
  show "\<forall>t\<in>set (remove_between aa bb segs). left_of t (aa, bb) \<or> left_of (aa, bb) t"
  proof
    fix t assume t: "t \<in> set (remove_between aa bb segs)"
    then have "t \<in> set segs" "\<not> (fst t \<ge> aa \<and> snd t \<le> bb)"
      by (auto simp: remove_between_def)
    moreover from this wf have "fst t \<le> snd t" using well_formed_le by blast
    moreover from \<open>t \<in> set segs\<close> na nb have "\<not> inside aa t" "\<not> inside bb t" by simp_all
    ultimately show "left_of t (aa, bb) \<or> left_of (aa, bb) t"
      using le by (auto simp: inside_def left_of_def)
  qed
qed

lemma put_case2:
  assumes wf: "well_formed (L @ (a, b) # R)" and le: "aa \<le> bb"
    and ia: "inside aa (a, b)" and ib: "inside bb (a, b)"
    and nb: "\<forall>t\<in>set R. \<not> inside bb t"
  shows "well_formed (sort_key fst
           (if a = aa then (L @ R) @ [(bb, b)]
            else if b = bb then (L @ R) @ [(a, aa)]
            else (L @ R) @ [(a, aa), (bb, b)]))"
proof -
  note sp = well_formed_split[OF wf]
  have sub: "set (L @ R) \<subseteq> set (L @ (a, b) # R)" by auto
  have l: "snd t \<le> a \<and> fst t < a" if "t \<in> set L" for t
    using sp(1) that by (auto simp: left_of_def)
  have r: "b \<le> fst t \<and> a < fst t \<and> bb < fst t" if "t \<in> set R" for t
  proof -
    from sp(2) that have 1: "b \<le> fst t" "a < fst t" by (auto simp: left_of_def)
    from that wf have "fst t \<le> snd t" using well_formed_le[of "L @ (a, b) # R" t] by simp
    with nb that 1 ib show ?thesis by (auto simp: inside_def)
  qed
  from ia ib le have ab: "a \<le> aa" "aa \<le> b" "a \<le> bb" "bb \<le> b" by (auto simp: inside_def)
  show ?thesis
  proof (cases "a = aa")
    case True
    have "well_formed (sort_key fst ((L @ R) @ [(bb, b)]))"
    proof (rule well_formed_insert[OF wf sub sp(4)])
      show "fst (bb, b) \<le> snd (bb, b)" using ab by simp
      show "\<forall>t\<in>set (L @ R). left_of t (bb, b) \<or> left_of (bb, b) t"
        using l r ab by (fastforce simp: left_of_def)
    qed
    with True show ?thesis by simp
  next
    case False
    show ?thesis
    proof (cases "b = bb")
      case True
      have "well_formed (sort_key fst ((L @ R) @ [(a, aa)]))"
      proof (rule well_formed_insert[OF wf sub sp(4)])
        show "fst (a, aa) \<le> snd (a, aa)" using ab by simp
        show "\<forall>t\<in>set (L @ R). left_of t (a, aa) \<or> left_of (a, aa) t"
          using l r ab by (fastforce simp: left_of_def)
      qed
      with True \<open>a \<noteq> aa\<close> show ?thesis by simp
    next
      case nbb: False
      have "well_formed (sort_key fst ((L @ R) @ [(a, aa), (bb, b)]))"
      proof (rule well_formed_insert2[OF wf sub sp(4)])
        show "fst (a, aa) \<le> snd (a, aa)" "fst (bb, b) \<le> snd (bb, b)" using ab by simp_all
        show "left_of (a, aa) (bb, b)" using ab le False by (auto simp: left_of_def)
        show "\<forall>t\<in>set (L @ R). (left_of t (a, aa) \<or> left_of (a, aa) t) \<and>
                (left_of t (bb, b) \<or> left_of (bb, b) t)"
          using l r ab by (fastforce simp: left_of_def)
      qed
      with nbb \<open>a \<noteq> aa\<close> show ?thesis by simp
    qed
  qed
qed

lemma put_case3a:
  assumes wf: "well_formed (L @ (a, b) # R)" and le: "aa \<le> bb"
    and ia: "inside aa (a, b)" and nb: "\<forall>s\<in>set (L @ (a, b) # R). \<not> inside bb s"
  shows "well_formed (sort_key fst (remove_between a bb (L @ R) @ [(a, bb)]))"
proof (rule well_formed_insert[OF wf])
  note sp = well_formed_split[OF wf]
  from ia nb le have ab: "a \<le> aa" "aa \<le> b" "b < bb" by (auto simp: inside_def)
  show "set (remove_between a bb (L @ R)) \<subseteq> set (L @ (a, b) # R)"
    by (auto simp: remove_between_def)
  show "distinct (remove_between a bb (L @ R))"
    using sp(4) by (rule remove_between_distinct)
  show "fst (a, bb) \<le> snd (a, bb)" using ab le by simp
  show "\<forall>t\<in>set (remove_between a bb (L @ R)). left_of t (a, bb) \<or> left_of (a, bb) t"
  proof
    fix t assume t: "t \<in> set (remove_between a bb (L @ R))"
    then have mem: "t \<in> set L \<or> t \<in> set R" and keep: "\<not> (fst t \<ge> a \<and> snd t \<le> bb)"
      by (auto simp: remove_between_def)
    from mem wf have tle: "fst t \<le> snd t" using well_formed_le[of "L @ (a, b) # R" t] by auto
    from mem nb have nin: "\<not> inside bb t" by auto
    from mem show "left_of t (a, bb) \<or> left_of (a, bb) t"
    proof
      assume "t \<in> set L"
      with sp(1) show ?thesis by (auto simp: left_of_def)
    next
      assume "t \<in> set R"
      with sp(2) have "b \<le> fst t" "a < fst t" by (auto simp: left_of_def)
      with keep nin tle show ?thesis by (auto simp: left_of_def inside_def)
    qed
  qed
qed

lemma put_case3b:
  assumes wf: "well_formed (L @ (a, b) # R)" and le: "aa \<le> bb"
    and ib: "inside bb (a, b)" and na: "\<forall>s\<in>set (L @ (a, b) # R). \<not> inside aa s"
  shows "well_formed (sort_key fst (remove_between aa b (L @ R) @ [(aa, b)]))"
proof (rule well_formed_insert[OF wf])
  note sp = well_formed_split[OF wf]
  from ib na le have ab: "aa < a" "a \<le> bb" "bb \<le> b" by (auto simp: inside_def)
  show "set (remove_between aa b (L @ R)) \<subseteq> set (L @ (a, b) # R)"
    by (auto simp: remove_between_def)
  show "distinct (remove_between aa b (L @ R))"
    using sp(4) by (rule remove_between_distinct)
  show "fst (aa, b) \<le> snd (aa, b)" using ab by simp
  show "\<forall>t\<in>set (remove_between aa b (L @ R)). left_of t (aa, b) \<or> left_of (aa, b) t"
  proof
    fix t assume t: "t \<in> set (remove_between aa b (L @ R))"
    then have mem: "t \<in> set L \<or> t \<in> set R" and keep: "\<not> (fst t \<ge> aa \<and> snd t \<le> b)"
      by (auto simp: remove_between_def)
    from mem wf have tle: "fst t \<le> snd t" using well_formed_le[of "L @ (a, b) # R" t] by auto
    from mem na have nin: "\<not> inside aa t" by auto
    from mem show "left_of t (aa, b) \<or> left_of (aa, b) t"
    proof
      assume "t \<in> set L"
      with sp(1) have "snd t \<le> a" "fst t < a" by (auto simp: left_of_def)
      with keep nin tle ab show ?thesis by (auto simp: left_of_def inside_def)
    next
      assume "t \<in> set R"
      with sp(2) have "b \<le> fst t" "a < fst t" by (auto simp: left_of_def)
      with ab show ?thesis by (auto simp: left_of_def)
    qed
  qed
qed


lemma put_case4:
  assumes wf: "well_formed (L @ s1 # M @ s2 # R)" and le: "aa \<le> bb"
    and ia: "inside aa s1" and ib: "inside bb s2"
  shows "well_formed (sort_key fst (remove_between aa bb (L @ M @ R) @ [(fst s1, snd s2)]))"
proof (rule well_formed_insert[OF wf])
  from wf have sw: "sorted_wrt left_of (L @ s1 # M @ s2 # R)" by (simp add: well_formed_def)
  have s12: "left_of s1 s2" using sw by (simp add: sorted_wrt_append)
  have l: "left_of t s1" if "t \<in> set L" for t
    using sw that by (simp add: sorted_wrt_append)
  have m: "left_of s1 t \<and> left_of t s2" if "t \<in> set M" for t
    using sw that by (auto simp: sorted_wrt_append)
  have r: "left_of s2 t" if "t \<in> set R" for t
    using sw that by (auto simp: sorted_wrt_append)
  have le1: "fst s1 \<le> snd s1" and le2: "fst s2 \<le> snd s2"
    using wf well_formed_le[of "L @ s1 # M @ s2 # R"] by simp_all
  from well_formed_distinct[OF wf] have "distinct (L @ M @ R)" by auto
  then show "distinct (remove_between aa bb (L @ M @ R))" by (rule remove_between_distinct)
  show "set (remove_between aa bb (L @ M @ R)) \<subseteq> set (L @ s1 # M @ s2 # R)"
    using remove_between_subset[of aa bb "L @ M @ R"] by auto
  show "fst (fst s1, snd s2) \<le> snd (fst s1, snd s2)"
    using s12 le1 le2 by (auto simp: left_of_def)
  show "\<forall>t\<in>set (remove_between aa bb (L @ M @ R)).
          left_of t (fst s1, snd s2) \<or> left_of (fst s1, snd s2) t"
  proof
    fix t assume t: "t \<in> set (remove_between aa bb (L @ M @ R))"
    then have keep: "\<not> (fst t \<ge> aa \<and> snd t \<le> bb)"
      and mem: "t \<in> set L \<or> t \<in> set M \<or> t \<in> set R"
      by (auto simp: remove_between_def)
    from mem show "left_of t (fst s1, snd s2) \<or> left_of (fst s1, snd s2) t"
    proof (elim disjE)
      assume "t \<in> set L"
      then show ?thesis using l by (auto simp: left_of_def)
    next
      assume "t \<in> set M"
      with m have "snd s1 \<le> fst t" "snd t \<le> fst s2" by (auto simp: left_of_def)
      with ia ib keep show ?thesis by (auto simp: inside_def)
    next
      assume tR: "t \<in> set R"
      from r[OF tR] s12 show ?thesis by (auto simp: left_of_def)
    qed
  qed
qed

lemma two_splits:
  "L1 @ s1 # R1 = L2 @ s2 # R2 \<Longrightarrow> length L1 < length L2 \<Longrightarrow>
     \<exists>M. L2 = L1 @ s1 # M \<and> R1 = M @ s2 # R2"
proof (induction L1 arbitrary: L2)
  case Nil
  then show ?case by (cases L2) auto
next
  case (Cons x L1)
  then show ?case by (cases L2) auto
qed

lemma last_before:
  assumes wf: "well_formed (L2 @ s2 # M @ s1 # R1)" and le: "aa \<le> bb"
    and ia: "inside aa s1" and ib: "inside bb s2"
  shows "inside bb s1"
proof -
  from wf have "left_of s2 s1" by (simp add: well_formed_def sorted_wrt_append)
  moreover from wf have "fst s1 \<le> snd s1"
    using well_formed_le[of "L2 @ s2 # M @ s1 # R1" s1] by simp
  ultimately show ?thesis using ia ib le by (auto simp: left_of_def inside_def)
qed

lemma well_formed_sort_id: "well_formed segs \<Longrightarrow> sort_key fst segs = segs"
  by (simp add: well_formed_sorted sort_key_id_if_sorted)

lemma put_segments_well_formed:
  assumes wf: "well_formed segs" and le: "aa \<le> bb"
  shows "\<exists>move X. put_segments aa bb (last_inside aa segs 0 (-1)) (last_inside bb segs 0 (-1))
               flag segs = Moved move X \<and> well_formed (sort_key fst X)
               \<and> (flag \<longrightarrow> move \<noteq> None)"
proof -
  let ?aai = "last_inside aa segs 0 (-1)" and ?bbi = "last_inside bb segs 0 (-1)"
  consider
    (nn) "?aai = -1" "\<forall>s\<in>set segs. \<not> inside aa s" "?bbi = -1" "\<forall>s\<in>set segs. \<not> inside bb s"
  | (sn) L s R where "segs = L @ s # R" "inside aa s" "?aai = int (length L)"
      "?bbi = -1" "\<forall>s\<in>set segs. \<not> inside bb s"
  | (ns) L s R where "segs = L @ s # R" "inside bb s" "?bbi = int (length L)"
      "?aai = -1" "\<forall>s\<in>set segs. \<not> inside aa s"
  | (ss) L1 s1 R1 L2 s2 R2 where "segs = L1 @ s1 # R1" "inside aa s1" "?aai = int (length L1)"
      "segs = L2 @ s2 # R2" "inside bb s2" "?bbi = int (length L2)"
      "\<forall>t\<in>set R1. \<not> inside aa t" "\<forall>t\<in>set R2. \<not> inside bb t"
    using last_inside_cases[of aa segs] last_inside_cases[of bb segs] by blast
  then show ?thesis
  proof cases
    case nn
    then have "put_segments aa bb ?aai ?bbi flag segs
        = Moved (Some 1) (remove_between aa bb segs @ [(aa, bb)])"
      by (simp add: put_segments_def)
    with put_case1[OF wf le nn(2) nn(4)] show ?thesis by simp
  next
    case sn
    obtain a b where s: "s = (a, b)" by (cases s)
    have "put_segments aa bb ?aai ?bbi flag segs
        = Moved (Some 3) (remove_between a bb (L @ R) @ [(a, bb)])"
      unfolding sn(3) sn(4) by (simp add: put_segments_def sn(1) s py_pop_split)
    moreover have "well_formed (sort_key fst (remove_between a bb (L @ R) @ [(a, bb)]))"
      using put_case3a[of L a b R aa bb] wf le sn s by simp
    ultimately show ?thesis by simp
  next
    case ns
    obtain a b where s: "s = (a, b)" by (cases s)
    have "put_segments aa bb ?aai ?bbi flag segs
        = Moved (Some 3) (remove_between aa b (L @ R) @ [(aa, b)])"
      unfolding ns(3) ns(4) by (simp add: put_segments_def ns(1) s py_pop_split)
    moreover have "well_formed (sort_key fst (remove_between aa b (L @ R) @ [(aa, b)]))"
      using put_case3b[of L a b R aa bb] wf le ns s by simp
    ultimately show ?thesis by simp
  next
    case ss
    consider (same) "length L1 = length L2" | (lt) "length L1 < length L2"
      | (gt) "length L2 < length L1" by linarith
    then show ?thesis
    proof cases
      case same
      with ss(1,4) have eq: "L2 = L1" "s2 = s1" "R2 = R1" by auto
      obtain a b where s: "s1 = (a, b)" by (cases s1)
      have "put_segments aa bb ?aai ?bbi flag segs =
              Moved (Some 2) (if a = aa then (L1 @ R1) @ [(bb, b)]
                   else if b = bb then (L1 @ R1) @ [(a, aa)]
                   else (L1 @ R1) @ [(a, aa), (bb, b)])"
        unfolding ss(3) ss(6) eq by (simp add: put_segments_def ss(1) s py_pop_split)
      moreover have "well_formed (sort_key fst
              (if a = aa then (L1 @ R1) @ [(bb, b)]
               else if b = bb then (L1 @ R1) @ [(a, aa)]
               else (L1 @ R1) @ [(a, aa), (bb, b)]))"
        using wf le ss eq s by (intro put_case2) simp_all
      ultimately show ?thesis by blast
    next
      case lt
      with ss(1,4) obtain M where M: "L2 = L1 @ s1 # M" "R1 = M @ s2 # R2"
        using two_splits[of L1 s1 R1 L2 s2 R2] by auto
      have segs: "segs = L1 @ s1 # M @ s2 # R2" using ss(1) M by simp
      show ?thesis
      proof (cases flag)
        case True
        obtain a b where s1: "s1 = (a, b)" by (cases s1)
        obtain c d where s2: "s2 = (c, d)" by (cases s2)
        have p1: "py_pop segs (int (length L1)) = Inr (s1, L1 @ M @ s2 # R2)"
          unfolding segs by (rule py_pop_split)
        have "int (length L2) - 1 = int (length (L1 @ M))" using M by simp
        then have p2: "py_pop (L1 @ M @ s2 # R2) (int (length L2) - 1) = Inr (s2, (L1 @ M) @ R2)"
          using py_pop_split[of "L1 @ M" s2 R2] by simp
        have ne: "int (length L1) \<noteq> int (length L2)" using lt by simp
        have "put_segments aa bb ?aai ?bbi flag segs =
                Moved (Some 4) (remove_between aa bb (L1 @ M @ R2) @ [(a, d)])"
          unfolding ss(3) ss(6) using ne True
          by (simp add: put_segments_def p1[unfolded s1 s2] p2[unfolded s2])
        moreover have "well_formed (sort_key fst (remove_between aa bb (L1 @ M @ R2) @ [(a, d)]))"
          using put_case4[of L1 s1 M s2 R2 aa bb] wf le ss(2,5) segs s1 s2 by simp
        ultimately show ?thesis by blast
      next
        case False
        have ne: "int (length L1) \<noteq> int (length L2)" using lt by simp
        have "put_segments aa bb ?aai ?bbi flag segs = Moved None segs"
          unfolding ss(3) ss(6) using ne False by (simp add: put_segments_def)
        with wf False show ?thesis by (simp add: well_formed_sort_id)
      qed
    next
      case gt
      with ss(1,4) obtain M where M: "L1 = L2 @ s2 # M" "R2 = M @ s1 # R1"
        using two_splits[of L2 s2 R2 L1 s1 R1] by auto
      have "segs = L2 @ s2 # M @ s1 # R1" using ss(1) M by simp
      with wf le ss(2,5) have "inside bb s1" using last_before by blast
      with ss(8) M show ?thesis by simp
    qed
  qed
qed

lemma put_anchor_well_formed:
  assumes wf: "well_formed (segments tln)"
  shows "well_formed (segments (fst (put_anchor pos flag tln)))
     \<and> (snd (put_anchor pos flag tln) = None
          \<or> snd (put_anchor pos flag tln) = Some UnboundLocalError)
     \<and> (flag \<longrightarrow> snd (put_anchor pos flag tln) = None)"
proof (cases "anchor tln")
  case None
  with wf show ?thesis by (simp add: put_anchor_def well_formed_sort_id)
next
  case (Some anc)
  let ?aa = "if anc > pos then pos else anc" and ?bb = "if anc > pos then anc else pos"
  have le: "?aa \<le> ?bb" by auto
  from put_segments_well_formed[OF wf le, of flag]
  obtain move X where X: "put_segments ?aa ?bb (last_inside ?aa (segments tln) 0 (-1))
        (last_inside ?bb (segments tln) 0 (-1)) flag (segments tln) = Moved move X"
    "well_formed (sort_key fst X)" "flag \<longrightarrow> move \<noteq> None" by blast
  have eq: "put_anchor pos flag tln =
          (\<lparr>segments = sort_key fst X, anchor = None\<rparr>,
           case move of None \<Rightarrow> Some UnboundLocalError | Some m \<Rightarrow> None)"
    unfolding put_anchor_def Some Let_def classify_last_inside using X(1) by simp
  show ?thesis unfolding eq using X(2,3) by (cases move) simp_all
qed

lemma well_formed_remove1: "well_formed segs \<Longrightarrow> well_formed (remove1 s segs)"
proof -
  assume wf: "well_formed segs"
  then have "remove1 s segs = filter (\<lambda>t. s \<noteq> t) segs"
    using well_formed_distinct[OF wf]
    by (simp add: distinct_remove1_removeAll removeAll_filter_not_eq)
  with wf show ?thesis
    by (simp add: well_formed_def sorted_wrt_filter list_all_iff)
qed

lemma del_loop_well_formed:
  "well_formed segs \<Longrightarrow> well_formed (fst (del_loop c segs idx anc))"
proof (induction c segs idx anc rule: del_loop.induct)
  case (1 c segs idx anc)
  show ?case
  proof (cases "idx < length segs")
    case False
    with "1.prems" show ?thesis by (simp add: del_loop.simps[of c segs idx anc])
  next
    case True
    obtain a b where ab: "segs ! idx = (a, b)" by (cases "segs ! idx")
    note wr = well_formed_remove1[OF "1.prems", of "(a, b)"]
    show ?thesis
      using "1.IH"(1)[OF True ab[symmetric] _ wr] "1.IH"(2)[OF True ab[symmetric] _ _ wr]
        "1.IH"(3)[OF True ab[symmetric] _ _ "1.prems"] True ab
      by (simp add: del_loop.simps[of c segs idx anc])
  qed
qed

lemma del_anchor_well_formed:
  "well_formed (segments tln) \<Longrightarrow> well_formed (segments (del_anchor c tln))"
  using del_loop_well_formed[of "segments tln" c 0 "anchor tln"]
  by (cases "del_loop c (segments tln) 0 (anchor tln)") (simp add: del_anchor_def)

lemma apply_edit_well_formed:
  assumes wf: "well_formed (segments tln)"
  shows "well_formed (segments (fst (apply_edit e tln)))"
proof (cases e)
  case (Put pos flag)
  with put_anchor_well_formed[OF wf, of pos flag] show ?thesis by simp
next
  case (Del c)
  with del_anchor_well_formed[OF wf, of c] show ?thesis by simp
qed

lemma run_edits_well_formed:
  "well_formed (segments tln) \<Longrightarrow> well_formed (segments (run_edits es tln))"
proof (induction es arbitrary: tln)
  case Nil
  then show ?case by simp
next
  case (Cons e es)
  from Cons.IH[OF apply_edit_well_formed[OF Cons.prems, of e]] show ?case by simp
qed

lemma empty_well_formed: "well_formed (segments empty_timeline)"
  by (simp add: empty_timeline_def well_formed_def)

lemma well_formed_ordered: "well_formed segs \<Longrightarrow> sorted_wrt (\<lambda>s t. snd s \<le> fst t) segs"
  unfolding well_formed_def
  by (auto intro: sorted_wrt_mono_rel[of segs left_of] simp: left_of_def)

text \<open>
  In a run from the empty timeline a call raises nothing or \<open>UnboundLocalError\<close>: no
  \<open>pop\<close> of \<open>put_anchor\<close> ever fails, and a call with \<open>split_if_inside=True\<close> never raises.
\<close>

lemma edit_raises_only_unbound_local:
  "snd (apply_edit e (run_edits es empty_timeline)) = None
   \<or> snd (apply_edit e (run_edits es empty_timeline)) = Some UnboundLocalError"
proof (cases e)
  case (Put pos flag)
  with put_anchor_well_formed[OF run_edits_well_formed[OF empty_well_formed, of es], of pos flag]
  show ?thesis by simp
next
  case (Del c)
  then show ?thesis by simp
qed

text \<open>
  Claim C1. After every finite sequence of \<open>put_anchor\<close> (with either value of
  \<open>split_if_inside\<close>) and \<open>del_anchor\<close> calls, at arbitrary positions and targets, run from
  the empty timeline, the segment list held by the field is sorted ascending by start and
  pairwise non-overlapping: every segment ends no later than every later segment starts
  (segments may abut). This holds of the field whether or not a call of the sequence
  raised: a raising \<open>put_anchor\<close> has stored the sorted list before it raises.
\<close>

theorem segments_sorted_non_overlapping:
  "sorted (map fst (segments (run_edits es empty_timeline)))
   \<and> sorted_wrt (\<lambda>s t. snd s \<le> fst t) (segments (run_edits es empty_timeline))"
  using run_edits_well_formed[OF empty_well_formed, of es]
    well_formed_sorted well_formed_ordered by blast



text \<open>
  When each endpoint is inside some segment and no single segment holds both, the
  classification loop finds two different indices. (An endpoint on the common boundary of
  two abutting segments is inside both and is classified to the later one.)
\<close>

lemma different_segments_classified:
  assumes lo: "\<exists>s\<in>set segs. inside lo s" and hi: "\<exists>s\<in>set segs. inside hi s"
    and no: "\<not> (\<exists>s\<in>set segs. inside lo s \<and> inside hi s)"
    and cl: "classify lo hi segs 0 (-1, -1) = (aai, bbi)"
  shows "aai \<noteq> -1 \<and> bbi \<noteq> -1 \<and> aai \<noteq> bbi"
proof -
  from cl have ab: "aai = last_inside lo segs 0 (-1)" "bbi = last_inside hi segs 0 (-1)"
    by (simp_all add: classify_last_inside)
  from lo last_inside_cases[of lo segs] obtain L1 s1 R1 where
    1: "segs = L1 @ s1 # R1" "inside lo s1" "aai = int (length L1)"
    unfolding ab by blast
  from hi last_inside_cases[of hi segs] obtain L2 s2 R2 where
    2: "segs = L2 @ s2 # R2" "inside hi s2" "bbi = int (length L2)"
    unfolding ab by blast
  have "aai \<noteq> bbi"
  proof
    assume "aai = bbi"
    with 1 2 have "length L1 = length L2" by simp
    with 1(1) 2(1) have "s1 = s2" by auto
    with 1 2 no show False by auto
  qed
  with 1(3) 2(3) show ?thesis by simp
qed

text \<open>
  The no-branch case of \<open>put_anchor\<close>: when the classification loop finds both sorted
  endpoints inside segments, in two different ones, and \<open>split_if_inside\<close> is \<open>False\<close>,
  the call clears the anchor, stores the sorted list (the list before the call when that
  was sorted) and then raises \<open>UnboundLocalError\<close> at the read of \<open>move\<close>.
\<close>

lemma put_anchor_two_segments_raises:
  assumes "anchor tln = Some anc" and "sorted (map fst (segments tln))"
    and "classify (min anc pos) (max anc pos) (segments tln) 0 (-1, -1) = (aai, bbi)"
    and "aai \<noteq> -1" and "bbi \<noteq> -1" and "aai \<noteq> bbi"
  shows "put_anchor pos False tln
           = (\<lparr>segments = segments tln, anchor = None\<rparr>, Some UnboundLocalError)"
proof -
  have mm: "(if anc > pos then pos else anc) = min anc pos"
    "(if anc > pos then anc else pos) = max anc pos" by auto
  from assms(4,5,6) have "put_segments (min anc pos) (max anc pos) aai bbi False (segments tln)
      = Moved None (segments tln)"
    by (auto simp: put_segments_def)
  with assms(1,2,3) show ?thesis
    by (simp add: put_anchor_def mm sort_key_id_if_sorted)
qed

text \<open>
  Claim C5, evaluated on the code. On segments \<open>[(10, 20), (30, 40)]\<close> with pending anchor
  35, \<open>put_anchor(split_if_inside=False)\<close> at position 15 finds the sorted endpoints 15
  and 35 inside the two different segments 0 and 1. The call clears the anchor and leaves
  the segment list unchanged, but it does not complete: it raises \<open>UnboundLocalError\<close>.
\<close>

theorem put_anchor_no_join_raises:
  "classify (15::int) 35 [(10, 20), (30, 40)] 0 (-1, -1) = (0, 1)
   \<and> put_anchor 15 False \<lparr>segments = [(10::int, 20), (30, 40)], anchor = Some 35\<rparr>
       = (\<lparr>segments = [(10, 20), (30, 40)], anchor = None\<rparr>, Some UnboundLocalError)"
  by (simp add: put_anchor_def put_segments_def)

lemma del_loop_no_match:
  "\<forall>s\<in>set segs. Some (fst s) \<noteq> c \<and> Some (snd s) \<noteq> c \<Longrightarrow> del_loop c segs idx anc = (segs, anc)"
proof (induction c segs idx anc rule: del_loop.induct)
  case (1 c segs idx anc)
  show ?case
  proof (cases "idx < length segs")
    case False
    then show ?thesis by (simp add: del_loop.simps[of c segs idx anc])
  next
    case True
    obtain a b where ab: "segs ! idx = (a, b)" by (cases "segs ! idx")
    with True have "(a, b) \<in> set segs" by (metis nth_mem)
    with "1.prems" have nm: "Some a \<noteq> c" "Some b \<noteq> c" by auto
    from "1.IH"(3)[OF True ab[symmetric] nm "1.prems"] True ab nm
    show ?thesis by (simp add: del_loop.simps[of c segs idx anc])
  qed
qed

lemma del_loop_prefix:
  "\<forall>s\<in>set L. Some (fst s) \<noteq> c \<and> Some (snd s) \<noteq> c \<Longrightarrow> idx \<le> length L \<Longrightarrow>
     del_loop c (L @ R) idx anc = del_loop c (L @ R) (length L) anc"
proof (induction "length L - idx" arbitrary: idx)
  case 0
  then show ?case by simp
next
  case (Suc n)
  then have lt: "idx < length L" by simp
  obtain a b where ab: "L ! idx = (a, b)" by (cases "L ! idx")
  with lt have "(a, b) \<in> set L" by (metis nth_mem)
  with Suc.prems have nm: "Some a \<noteq> c" "Some b \<noteq> c" by auto
  from lt ab have "(L @ R) ! idx = (a, b)" by (simp add: nth_append)
  with lt nm have "del_loop c (L @ R) idx anc = del_loop c (L @ R) (idx + 1) anc"
    by (simp add: del_loop.simps[of c "L @ R" idx anc])
  also have "\<dots> = del_loop c (L @ R) (length L) anc"
    using Suc.hyps(1)[of "idx + 1"] Suc.hyps(2) Suc.prems(1) lt by simp
  finally show ?case .
qed

lemma set_boundaries: "set (boundaries segs) = fst ` set segs \<union> snd ` set segs"
  by (induction segs) (auto simp: boundaries_def)

lemma boundaries_append: "boundaries (L @ R) = boundaries L @ boundaries R"
  by (simp add: boundaries_def)

lemma boundaries_Cons: "boundaries ((a, b) # R) = a # b # boundaries R"
  by (simp add: boundaries_def)

text \<open>
  Claim C8. On a timeline whose segment boundaries are pairwise distinct, \<open>del_anchor\<close>
  with a target that is a boundary of an existing segment and is not the pending anchor
  removes that segment and sets the pending anchor to the segment's other boundary; from
  segments \<open>[(10, 20)]\<close> and target 10 the result is no segment and anchor 20.
\<close>

theorem del_anchor_segment_boundary:
  assumes d: "distinct (boundaries (segments tln))"
    and mem: "(a, b) \<in> set (segments tln)"
    and t: "target = a \<or> target = b"
    and na: "anchor tln \<noteq> Some target"
  shows "del_anchor (Some target) tln =
           \<lparr>segments = remove1 (a, b) (segments tln),
            anchor = Some (if target = a then b else a)\<rparr>"
proof -
  from mem obtain L R where segs: "segments tln = L @ (a, b) # R" and nl: "(a, b) \<notin> set L"
    using split_list_first[of "(a, b)" "segments tln"] by blast
  from d have d': "distinct (boundaries L @ a # b # boundaries R)"
    by (simp add: segs boundaries_append boundaries_Cons)
  then have ab: "a \<noteq> b" by auto
  have nmL: "\<forall>s\<in>set L. Some (fst s) \<noteq> Some target \<and> Some (snd s) \<noteq> Some target"
    using d' t by (auto simp: set_boundaries)
  have nmR: "\<forall>s\<in>set R. Some (fst s) \<noteq> Some target \<and> Some (snd s) \<noteq> Some target"
    using d' t by (auto simp: set_boundaries)
  have rm: "remove1 (a, b) (L @ (a, b) # R) = L @ R"
    using nl by (simp add: remove1_append)
  have tail: "del_loop (Some target) (L @ R) (length L + 1) x = (L @ R, x)" for x
    using nmL nmR by (intro del_loop_no_match) auto
  have "del_loop (Some target) (L @ (a, b) # R) 0 (anchor tln)
          = del_loop (Some target) (L @ (a, b) # R) (length L) (anchor tln)"
    using del_loop_prefix[OF nmL, of 0 "(a, b) # R" "anchor tln"] by simp
  also have "\<dots> = (L @ R, Some (if target = a then b else a))"
    using t ab rm tail
    by (auto simp: del_loop.simps[of "Some target" "L @ (a, b) # R" "length L"])
  finally show ?thesis
    using na by (auto simp: del_anchor_def segs rm)
qed

theorem del_anchor_segment_boundary_witness:
  "distinct (boundaries [(10::int, 20)]) \<and> (10::int, 20) \<in> set [(10, 20)]
   \<and> None \<noteq> Some (10::int)
   \<and> del_anchor (Some 10) \<lparr>segments = [(10::int, 20)], anchor = None\<rparr>
       = \<lparr>segments = [], anchor = Some 20\<rparr>"
proof -
  let ?t = "\<lparr>segments = [(10::int, 20)], anchor = None\<rparr>"
  have d: "distinct (boundaries (segments ?t))" by (simp add: boundaries_def)
  have m: "(10::int, 20) \<in> set (segments ?t)" by simp
  have n: "anchor ?t \<noteq> Some 10" by simp
  from del_anchor_segment_boundary[OF d m _ n] d m show ?thesis by simp
qed

lemma separated_sorted: "separated segs \<Longrightarrow> sorted (map fst segs)"
  unfolding separated_def
  by (induction segs) (fastforce simp: list_all_iff)+

lemma replay_separated:
  "separated (acc @ saved) \<Longrightarrow>
     replay_segments saved \<lparr>segments = acc, anchor = None\<rparr>
       = (\<lparr>segments = acc @ saved, anchor = None\<rparr>, None)"
proof (induction saved arbitrary: acc)
  case Nil
  then show ?case by simp
next
  case (Cons s rest)
  obtain a b where s: "s = (a, b)" by (cases s)
  from Cons.prems have sep: "separated ((acc @ [(a, b)]) @ rest)" by (simp add: s)
  from Cons.prems have ab: "a < b" by (simp add: separated_def s)
  have before: "\<forall>d\<in>set acc. fst d < a \<and> snd d < a"
  proof
    fix d assume "d \<in> set acc"
    with Cons.prems have "snd d < a" "fst d < snd d"
      by (auto simp: separated_def s sorted_wrt_append list_all_iff)
    then show "fst d < a \<and> snd d < a" by simp
  qed
  have sacc: "sorted (map fst acc)"
    using separated_sorted[OF Cons.prems] by (simp add: sorted_append)
  have sacc': "sorted (map fst (acc @ [(a, b)]))"
    using separated_sorted[OF sep] by (simp add: sorted_append)
  have p1: "put_anchor a True \<lparr>segments = acc, anchor = None\<rparr>
              = (\<lparr>segments = acc, anchor = Some a\<rparr>, None)"
    using sacc by (simp add: put_anchor_def sort_key_id_if_sorted)
  have "\<forall>d\<in>set acc. \<not> inside a d" "\<forall>d\<in>set acc. \<not> inside b d"
    using before ab by (fastforce simp: inside_def)+
  then have cl: "classify a b acc 0 (-1, -1) = (-1, -1)"
    by (simp add: classify_last_inside last_inside_none)
  have rb: "remove_between a b acc = acc"
    unfolding remove_between_def using before by (intro filter_True) fastforce
  have p2: "put_anchor b False \<lparr>segments = acc, anchor = Some a\<rparr>
              = (\<lparr>segments = acc @ [(a, b)], anchor = None\<rparr>, None)"
  proof -
    from ab have nab: "\<not> a > b" by simp
    have srt: "sort_key fst (acc @ [(a, b)]) = acc @ [(a, b)]"
      using sacc' by (rule sort_key_id_if_sorted)
    show ?thesis
      by (simp add: put_anchor_def put_segments_def nab cl rb srt del: sort_key_simps)
  qed
  show ?case
    using Cons.IH[OF sep] by (simp add: s p1 p2)
qed

text \<open>
  On a separated list the replay is exact and raises nothing.
\<close>

lemma restore_separated:
  assumes "sorted_wrt (\<lambda>s t. snd s < fst t) (segments tln)"
    and "list_all (\<lambda>(a, b). a < b) (segments tln)"
  shows "restore tln = (tln, None)"
proof -
  from assms have "separated ([] @ segments tln)" by (simp add: separated_def)
  from replay_separated[OF this] show ?thesis
    by (simp add: restore_def get_state_def apply_state_def empty_timeline_def)
qed

text \<open>
  Claim C3, evaluated on the code. The editor itself produces two abutting segments: the
  picks 10, 30, 20, 20 create \<open>(10, 30)\<close> and split it at 20 into \<open>(10, 20)\<close> and
  \<open>(20, 30)\<close>. Saved and replayed in a fresh editor, this timeline comes back as the single
  segment \<open>(10, 30)\<close>: when the second segment is replayed its start 20 is inside
  \<open>(10, 20)\<close> and its end is outside every segment, so \<open>put_anchor\<close> extends the first
  segment; \<open>split_if_inside=False\<close> only switches off the join of two different segments.
  No call of the replay raises.
\<close>

theorem restore_merges_abutting_segments:
  "run_edits [Put (10::int) True, Put 30 True, Put 20 True, Put 20 True] empty_timeline
     = \<lparr>segments = [(10, 20), (20, 30)], anchor = None\<rparr>
   \<and> restore \<lparr>segments = [(10::int, 20), (20, 30)], anchor = None\<rparr>
       = (\<lparr>segments = [(10, 30)], anchor = None\<rparr>, None)
   \<and> [(10::int, 30::int)] \<noteq> [(10, 20), (20, 30)]"
proof -
  have "run_edits [Put (10::int) True, Put 30 True, Put 20 True, Put 20 True] empty_timeline
     = \<lparr>segments = [(10, 20), (20, 30)], anchor = None\<rparr>"
    by code_simp
  moreover have "restore \<lparr>segments = [(10::int, 20), (20, 30)], anchor = None\<rparr>
       = (\<lparr>segments = [(10, 30)], anchor = None\<rparr>, None)"
    by code_simp
  ultimately show ?thesis by simp
qed

section \<open>Properties of the timestamp index and of the inversion\<close>

lemma filter_incomplete_empty_window:
  "filter_incomplete ts ([], pts_index, ipts_index) = ([], pts_index, ipts_index)"
  by (induction ts) simp_all

lemma sorted_set_strict: "sorted_wrt (<) (sorted_set xs)"
  by (simp add: sorted_set_def strict_sorted_iff)

lemma packets_result:
  "load_timestamps_from_packets lines failed = Some (p, k) \<Longrightarrow>
     p = sorted_set (pts (read_packets lines) @ dts (read_packets lines)) \<and>
     k = sorted_set (ipts (read_packets lines))"
  by (auto simp: load_timestamps_from_packets_def Let_def filter_incomplete_empty_window
           split: if_splits)

lemma keyframe_bound_pts:
  "keyframe_bound p k \<Longrightarrow> sorted (p @ v # rest) \<Longrightarrow> keyframe_bound (p @ [v]) k"
proof -
  assume kb: "keyframe_bound p k" and s: "sorted (p @ v # rest)"
  have "last p \<le> v" if "p \<noteq> []"
    using s that by (simp add: sorted_append)
  with kb show ?thesis by (fastforce simp: keyframe_bound_def)
qed

lemma keyframe_bound_key:
  "keyframe_bound p k \<Longrightarrow> p \<noteq> [] \<Longrightarrow> keyframe_bound p (k @ [last p])"
  by (auto simp: keyframe_bound_def sorted_append)

lemma py_index_last: "p \<noteq> [] \<Longrightarrow> py_index p (-1) = Some (last p)"
proof -
  assume ne: "p \<noteq> []"
  then have pos: "Suc 0 \<le> length p" by (cases p) simp_all
  then have "nat (int (length p) + - 1) = length p - 1" by linarith
  moreover from pos have "- int (length p) \<le> - 1" by linarith
  ultimately show ?thesis using ne by (simp add: py_index_def last_conv_nth)
qed

lemma read_frames_order:
  "read_frames lines (p, k) = Inr (p1, k1) \<Longrightarrow>
     p1 = p @ frame_timestamps lines \<and>
     (sorted (p @ frame_timestamps lines) \<longrightarrow> keyframe_bound p k \<longrightarrow> keyframe_bound p1 k1)"
proof (induction lines arbitrary: p k)
  case Nil
  then show ?case by simp
next
  case (Cons line lines)
  show ?case
  proof (cases line)
    case (Best_effort_timestamp_time parsed)
    show ?thesis
    proof (cases parsed)
      case None
      with Cons.prems Best_effort_timestamp_time
      have "read_frames lines (p, k) = Inr (p1, k1)" by simp
      from Cons.IH[OF this] None Best_effort_timestamp_time show ?thesis by auto
    next
      case (Some v)
      with Cons.prems Best_effort_timestamp_time
      have "read_frames lines (p @ [v], k) = Inr (p1, k1)" by simp
      from Cons.IH[OF this] Some Best_effort_timestamp_time keyframe_bound_pts[of p k v "frame_timestamps lines"]
      show ?thesis by auto
    qed
  next
    case Pict_type_I
    show ?thesis
    proof (cases "p = []")
      case True
      with Cons.prems Pict_type_I show ?thesis by (simp add: py_index_def)
    next
      case False
      with Cons.prems Pict_type_I
      have "read_frames lines (p, k @ [last p]) = Inr (p1, k1)"
        by (simp add: py_index_last)
      from Cons.IH[OF this] Pict_type_I keyframe_bound_key[OF _ False, of k]
      show ?thesis by auto
    qed
  next
    case Other_frame_line
    with Cons.prems have "read_frames lines (p, k) = Inr (p1, k1)" by simp
    from Cons.IH[OF this] Other_frame_line show ?thesis by auto
  qed
qed

text \<open>
  Claim C9 fails as stated for frame mode: the loop appends the timestamps in stream order
  and never sorts, so the stream with timestamps 2, 1 gives the \<open>pts\<close> sequence \<open>[2, 1]\<close>.
\<close>

theorem frame_index_unsorted_counterexample:
  "load_timestamps_from_frames
       [Best_effort_timestamp_time (Some 2), Best_effort_timestamp_time (Some 1)] False
     = Inr (Some ([2, 1], []))
   \<and> \<not> sorted_wrt (<) [2 :: rat, 1]"
  by (simp add: load_timestamps_from_frames_def)

text \<open>
  Claim C9, amended. Every index produced by packet mode has a strictly ascending,
  duplicate-free \<open>pts\<close> sequence and a strictly ascending, duplicate-free keyframes
  sequence, for every input stream. Frame mode returns as \<open>pts\<close> the parsed timestamps of
  the stream in stream order; when these are strictly ascending, \<open>pts\<close> is strictly
  ascending and the keyframes sequence is ascending (it can repeat a timestamp).
\<close>

theorem index_sequences_ascending:
  "(load_timestamps_from_packets lines failed = Some (pts_index, ipts_index) \<longrightarrow>
      sorted_wrt (<) pts_index \<and> sorted_wrt (<) ipts_index)
   \<and> (load_timestamps_from_frames flines failed = Inr (Some (fpts, fipts)) \<longrightarrow>
        fpts = frame_timestamps flines \<and>
        (sorted_wrt (<) (frame_timestamps flines) \<longrightarrow> sorted_wrt (<) fpts \<and> sorted fipts))"
proof (intro conjI impI)
  assume "load_timestamps_from_packets lines failed = Some (pts_index, ipts_index)"
  from packets_result[OF this]
  show "sorted_wrt (<) pts_index" "sorted_wrt (<) ipts_index"
    by (simp_all add: sorted_set_strict)
next
  assume a: "load_timestamps_from_frames flines failed = Inr (Some (fpts, fipts))"
  then have r: "read_frames flines ([], []) = Inr (fpts, fipts)"
    by (auto simp: load_timestamps_from_frames_def split: sum.splits if_splits)
  from read_frames_order[OF r] show eq: "fpts = frame_timestamps flines" by simp
  assume s: "sorted_wrt (<) (frame_timestamps flines)"
  with eq show "sorted_wrt (<) fpts" by simp
  from s have "sorted ([] @ frame_timestamps flines)"
    by (simp add: strict_sorted_iff)
  with read_frames_order[OF r] show "sorted fipts"
    by (simp add: keyframe_bound_def)
qed

theorem index_sequences_ascending_witness:
  "load_timestamps_from_packets [Pts_time (Some 3), Dts_time (Some 1), Flags_K, Pts_time (Some 1)] False
      = Some ([1, 3], [3])
   \<and> sorted_wrt (<) [1 :: rat, 3] \<and> sorted_wrt (<) [3 :: rat]
   \<and> load_timestamps_from_frames
        [Best_effort_timestamp_time (Some 1), Pict_type_I, Best_effort_timestamp_time (Some 2)] False
      = Inr (Some ([1, 2], [1]))
   \<and> frame_timestamps
        [Best_effort_timestamp_time (Some 1), Pict_type_I, Best_effort_timestamp_time (Some 2)] = [1, 2]
   \<and> sorted_wrt (<) [1 :: rat, 2] \<and> sorted [1 :: rat]"
proof -
  let ?pl = "[Pts_time (Some 3), Dts_time (Some 1), Flags_K, Pts_time (Some 1)]"
  let ?fl = "[Best_effort_timestamp_time (Some 1), Pict_type_I, Best_effort_timestamp_time (Some 2)]"
  have p: "load_timestamps_from_packets ?pl False = Some ([1, 3], [3])"
    by code_simp
  have f: "load_timestamps_from_frames ?fl False = Inr (Some ([1, 2], [1]))"
    by code_simp
  have t: "frame_timestamps ?fl = [1, 2]" by simp
  from index_sequences_ascending[of ?pl False "[1, 3]" "[3]" ?fl "[1, 2]" "[1]"] p f t
  show ?thesis by simp
qed

text \<open>
  Claim C2, evaluated on the code. The window \<open>q\<close> of the cleanup loop is never filled, so
  the loop removes nothing: for the packet timestamps 1.000, 1.0015, 2.000 the resulting
  \<open>pts\<close> index is \<open>[1.000, 1.0015, 2.000]\<close>, and for every candidate sequence the loop
  returns the index it was given.
\<close>

theorem incomplete_packet_cleanup_is_noop:
  "load_timestamps_from_packets
       [Pts_time (Some 1), Pts_time (Some (10015 / 10000)), Pts_time (Some 2)] False
     = Some ([1, 10015 / 10000, 2], [])
   \<and> filter_incomplete ts ([], pts_index, ipts_index) = ([], pts_index, ipts_index)"
proof -
  have "load_timestamps_from_packets
       [Pts_time (Some 1), Pts_time (Some (10015 / 10000)), Pts_time (Some 2)] False
     = Some ([1, 10015 / 10000, 2], [])"
    by code_simp
  then show ?thesis by (simp add: filter_incomplete_empty_window)
qed

text \<open>
  Claim C4, evaluated on the code. For total duration 100 and segments
  \<open>[(10, 20), (50, 60)]\<close> the loop builds the complement \<open>[(0, 10), (20, 50), (60, 100)]\<close>
  in its local list, but the function has no \<open>return\<close> statement and returns \<open>None\<close>; it
  never returns a list.
\<close>

theorem get_inversed_segments_returns_none:
  "get_inversed_segments [(10, 20), (50, 60)] [] 100 25 = Inr None
   \<and> inversed_loop [] 100 25 4 (boundaries [(10, 20), (50, 60)]) 0 None []
       = Inr [(0, 10), (20, 50), (60, 100)]
   \<and> get_inversed_segments segs pts_index playback_len fps \<noteq> Inr (Some inversed)"
proof -
  have l: "inversed_loop [] 100 25 4 (boundaries [(10, 20), (50, 60)]) 0 None []
       = Inr [(0, 10), (20, 50), (60, 100)]"
    by code_simp
  have b: "length (boundaries [(10 :: rat, 20 :: rat), (50, 60)]) = 4"
    by (simp add: boundaries_def)
  have "get_inversed_segments [(10, 20), (50, 60)] [] 100 25 = Inr None"
    unfolding get_inversed_segments_def b l by simp
  moreover have "get_inversed_segments segs pts_index playback_len fps \<noteq> Inr (Some inversed)"
    by (simp add: get_inversed_segments_def split: sum.split)
  ultimately show ?thesis using l by simp
qed

end
